theory Spec2Isabelle
  imports Complex_Main
begin

section \<open>Data model\<close>

text \<open>
  Modelled from the spec: the type declarations of \<^verbatim>\<open>../../types\<close> (\<^verbatim>\<open>NotificationProps\<close>,
  \<^verbatim>\<open>ColoredMode\<close>, \<^verbatim>\<open>NotificationThemeType\<close>, \<^verbatim>\<open>ThemeMode\<close>) are not among the sources. The
  types below follow section 3 of the specification and the way
  \<^verbatim>\<open>NotificationManager.tsx\<close> reads the fields. Only the fields that the manager, the
  colour computation and the pointer handlers read are kept.
\<close>

datatype NotificationType = Success | Error | Info | Alert | NoType

datatype ColoredMode = Full | Border | NoColor

datatype ThemeMode = Light | Dark

datatype Vertical = Top | Bottom

datatype Horizontal = Left | Middle | Right

record NotificationThemeType =
  backgroundColor :: string
  borderColor :: string
  fontColor :: string

text \<open>
  \<^verbatim>\<open>align\<close> is an optional pair. The manager destructures it with a default for each
  component (\<^verbatim>\<open>[v = "top", h = "middle"]\<close>), so each component is optional here as well;
  a pair of two present components is the declared shape.
  \<^verbatim>\<open>isExiting\<close> is only ever tested for truthiness: \<^verbatim>\<open>undefined\<close> is \<open>False\<close>.
\<close>

record NotificationProps =
  nid :: string
  ntype :: NotificationType
  theme :: "NotificationThemeType option"
  colored :: "ColoredMode option"
  align :: "(Vertical option \<times> Horizontal option) option"
  isExiting :: bool

section \<open>The manager: bucketing\<close>

definition ORDER :: "string list" where
  "ORDER = [''top-left'', ''top-middle'', ''top-right'',
            ''bottom-left'', ''bottom-middle'', ''bottom-right'']"

fun vertical_str :: "Vertical \<Rightarrow> string" where
  "vertical_str Top = ''top''"
| "vertical_str Bottom = ''bottom''"

fun horizontal_str :: "Horizontal \<Rightarrow> string" where
  "horizontal_str Left = ''left''"
| "horizontal_str Middle = ''middle''"
| "horizontal_str Right = ''right''"

text \<open>
  \<^verbatim>\<open>const [v = "top", h = "middle"] = n.align ?? ["top", "middle"]; const key = `${v}-${h}`\<close>
\<close>

definition align_key :: "NotificationProps \<Rightarrow> string" where
  "align_key n =
     (let (vo, ho) = (case align n of None \<Rightarrow> (Some Top, Some Middle) | Some a \<Rightarrow> a);
          v = (case vo of None \<Rightarrow> Top | Some v' \<Rightarrow> v');
          h = (case ho of None \<Rightarrow> Middle | Some h' \<Rightarrow> h')
      in vertical_str v @ ''-'' @ horizontal_str h)"

text \<open>
  The loop of \<^verbatim>\<open>groups\<close>: \<^verbatim>\<open>(acc[key] ||= []).push(n)\<close>. An array is truthy even when
  empty, so \<^verbatim>\<open>||=\<close> assigns only where the key is absent.
\<close>

fun groups_loop ::
  "(string \<rightharpoonup> NotificationProps list) \<Rightarrow> NotificationProps list
     \<Rightarrow> (string \<rightharpoonup> NotificationProps list)" where
  "groups_loop acc [] = acc"
| "groups_loop acc (n # ns) =
     groups_loop
       (acc(align_key n \<mapsto> (case acc (align_key n) of None \<Rightarrow> [] | Some b \<Rightarrow> b) @ [n])) ns"

definition groups :: "NotificationProps list \<Rightarrow> (string \<rightharpoonup> NotificationProps list)" where
  "groups notifications = groups_loop Map.empty notifications"

section \<open>The manager: rendering\<close>

text \<open>
  One rendered card: \<^verbatim>\<open><Notification key={n.id} {...n} colored={n.colored ?? "full"}
  index={currentIndex} onClose={() => exitNotification(n.id)} />\<close>. The close callback is
  represented by the id it is bound to.
\<close>

record Element =
  el_key :: string
  el_props :: NotificationProps
  el_colored :: ColoredMode
  el_index :: nat
  el_onClose :: string

definition mk_element :: "NotificationProps \<Rightarrow> nat \<Rightarrow> Element" where
  "mk_element n currentIndex =
     \<lparr> el_key = nid n,
       el_props = n,
       el_colored = (case colored n of None \<Rightarrow> Full | Some c \<Rightarrow> c),
       el_index = currentIndex,
       el_onClose = nid n \<rparr>"

text \<open>
  The callback of \<^verbatim>\<open>bucket.slice(0, 7).map\<close>, threaded through the entries of one bucket.
  The state is the counter \<^verbatim>\<open>activeIndex\<close> and the side map
  \<^verbatim>\<open>previousIndexes.current\<close>, which the callback both reads and writes.
\<close>

fun render_bucket ::
  "nat \<Rightarrow> (string \<rightharpoonup> nat) \<Rightarrow> NotificationProps list \<Rightarrow> Element list \<times> (string \<rightharpoonup> nat)" where
  "render_bucket activeIndex previousIndexes [] = ([], previousIndexes)"
| "render_bucket activeIndex previousIndexes (n # ns) =
     (let currentIndex =
            (if isExiting n
             then (case previousIndexes (nid n) of None \<Rightarrow> activeIndex | Some i \<Rightarrow> i)
             else activeIndex);
          activeIndex' = (if \<not> isExiting n then activeIndex + 1 else activeIndex);
          previousIndexes' = previousIndexes(nid n \<mapsto> currentIndex);
          (els, final) = render_bucket activeIndex' previousIndexes' ns
      in (mk_element n currentIndex # els, final))"

text \<open>
  \<^verbatim>\<open>ORDER.map((alignKey) => ...)\<close>: a missing bucket gives \<^verbatim>\<open>null\<close> (\<open>None\<close>), a present
  one the cards of its first 7 entries, with a fresh counter.
\<close>

fun render_order ::
  "string list \<Rightarrow> (string \<rightharpoonup> NotificationProps list) \<Rightarrow> (string \<rightharpoonup> nat)
     \<Rightarrow> Element list option list \<times> (string \<rightharpoonup> nat)" where
  "render_order [] grp previousIndexes = ([], previousIndexes)"
| "render_order (alignKey # ks) grp previousIndexes =
     (case grp alignKey of
        None \<Rightarrow>
          (let (rest, final) = render_order ks grp previousIndexes
           in (None # rest, final))
      | Some bucket \<Rightarrow>
          (let (els, previousIndexes') = render_bucket 0 previousIndexes (take 7 bucket);
               (rest, final) = render_order ks grp previousIndexes'
           in (Some els # rest, final)))"

definition NotificationManager ::
  "NotificationProps list \<Rightarrow> (string \<rightharpoonup> nat) \<Rightarrow> Element list option list \<times> (string \<rightharpoonup> nat)" where
  "NotificationManager notifications previousIndexes =
     render_order ORDER (groups notifications) previousIndexes"

text \<open>
  The effect that runs after a render whose \<^verbatim>\<open>notifications\<close> changed: every key of the
  side map that is not the id of a live notification is deleted.
\<close>

definition cleanup_effect ::
  "NotificationProps list \<Rightarrow> (string \<rightharpoonup> nat) \<Rightarrow> (string \<rightharpoonup> nat)" where
  "cleanup_effect notifications previousIndexes =
     (\<lambda>k. if k \<in> set (map nid notifications) then previousIndexes k else None)"

text \<open>One snapshot: render, then the effect.\<close>

definition render_cycle ::
  "NotificationProps list \<Rightarrow> (string \<rightharpoonup> nat) \<Rightarrow> Element list option list \<times> (string \<rightharpoonup> nat)" where
  "render_cycle notifications previousIndexes =
     (let (out, previousIndexes') = NotificationManager notifications previousIndexes
      in (out, cleanup_effect notifications previousIndexes'))"

section \<open>The card: colours\<close>

record Colors =
  bg :: string
  border :: string
  color :: string

definition computeColors ::
  "ColoredMode \<Rightarrow> NotificationType \<Rightarrow> NotificationThemeType option
     \<Rightarrow> (NotificationType \<Rightarrow> NotificationThemeType)
     \<Rightarrow> (NotificationType \<Rightarrow> NotificationThemeType) \<Rightarrow> ThemeMode \<Rightarrow> Colors" where
  "computeColors coloredMode type userTheme lightTheme darkTheme mode =
     (let palette = (if mode = Light then lightTheme else darkTheme);
          base = (case userTheme of None \<Rightarrow> palette type | Some t \<Rightarrow> t);
          none = palette NoType
      in case coloredMode of
           Border \<Rightarrow>
             \<lparr> bg = backgroundColor none, border = borderColor base, color = fontColor base \<rparr>
         | NoColor \<Rightarrow>
             \<lparr> bg = backgroundColor none, border = borderColor none, color = fontColor none \<rparr>
         | Full \<Rightarrow>
             \<lparr> bg = backgroundColor base, border = borderColor base, color = fontColor base \<rparr>)"

section \<open>The card: pointer gestures\<close>

text \<open>
  Coordinates are JavaScript numbers. They are modelled as reals: the handlers only
  subtract, compare and add them, and rounding of the floating-point operations is not
  modelled. A point \<^verbatim>\<open>{ x, y }\<close> is a pair.
\<close>

type_synonym point = "real \<times> real"

record PointerEvent =
  clientX :: real
  clientY :: real
  pointerId :: nat

text \<open>
  What a handler does to the world outside the card's refs, in the order of the calls:
  the state setter \<^verbatim>\<open>setDragOffset\<close>, the store's \<^verbatim>\<open>exitNotification(id)\<close>, pointer
  capture on the card's element, and, for a click, \<^verbatim>\<open>e.stopPropagation()\<close> and the
  \<^verbatim>\<open>onClick\<close> prop.
\<close>

datatype effect =
    SetDragOffset point
  | ExitNotification string
  | SetPointerCapture nat
  | ReleasePointerCapture nat
  | StopPropagation
  | OnClick

record card =
  dragOffset :: point
  dragOffsetRef :: point
  dragStartRef :: "point option"
  clickSuppressedRef :: bool
  isDraggingOutRef :: bool
  effects :: "effect list"

definition initial_card :: card where
  "initial_card =
     \<lparr> dragOffset = (0, 0), dragOffsetRef = (0, 0), dragStartRef = None,
       clickSuppressedRef = False, isDraggingOutRef = False, effects = [] \<rparr>"

definition DRAG_CLOSE_DISTANCE :: real where
  "DRAG_CLOSE_DISTANCE = 100"

definition DRAG_RELEASE_PUSH :: real where
  "DRAG_RELEASE_PUSH = 120"

text \<open>\<^verbatim>\<open>Math.hypot\<close> of two arguments.\<close>

definition hypot :: "real \<Rightarrow> real \<Rightarrow> real" where
  "hypot x y = sqrt (x * x + y * y)"

definition call :: "effect \<Rightarrow> card \<Rightarrow> card" where
  "call e s = s\<lparr>effects := effects s @ [e]\<rparr>"

definition updateDragOffset :: "point \<Rightarrow> card \<Rightarrow> card" where
  "updateDragOffset v s = call (SetDragOffset v) (s\<lparr>dragOffsetRef := v, dragOffset := v\<rparr>)"

text \<open>\<^verbatim>\<open>Math.sign\<close> is \<open>sgn\<close>, \<^verbatim>\<open>Math.abs\<close> is \<open>abs\<close>. The first argument is the card's id.\<close>

definition finalizeDrag :: "string \<Rightarrow> bool \<Rightarrow> card \<Rightarrow> card" where
  "finalizeDrag cid shouldClose s =
     (let (x, y) = dragOffsetRef s;
          shouldPushX = \<bar>x\<bar> > 6;
          shouldPushY = \<bar>y\<bar> > 6
      in if shouldClose
         then call (ExitNotification cid)
                (updateDragOffset
                   (x + (if shouldPushX then sgn x * DRAG_RELEASE_PUSH else 0),
                    y + (if shouldPushY then sgn y * DRAG_RELEASE_PUSH else 0)) s)
         else updateDragOffset (0, 0) s)"

definition handlePointerDown :: "PointerEvent \<Rightarrow> card \<Rightarrow> card" where
  "handlePointerDown event s =
     call (SetPointerCapture (pointerId event))
       (s\<lparr>dragStartRef := Some (clientX event, clientY event), clickSuppressedRef := False\<rparr>)"

definition handlePointerMove :: "string \<Rightarrow> PointerEvent \<Rightarrow> card \<Rightarrow> card" where
  "handlePointerMove cid event s =
     (case dragStartRef s of
        None \<Rightarrow> s
      | Some (sx, sy) \<Rightarrow>
          (let dx = clientX event - sx;
               dy = clientY event - sy;
               s1 = updateDragOffset (dx, dy) s;
               s2 = (if hypot dx dy > 4 then s1\<lparr>clickSuppressedRef := True\<rparr> else s1);
               distance = hypot dx dy
           in if distance > DRAG_CLOSE_DISTANCE \<and> \<not> isDraggingOutRef s2 \<and> dragStartRef s2 \<noteq> None
              then (call (ReleasePointerCapture (pointerId event))
                      (finalizeDrag cid True (s2\<lparr>isDraggingOutRef := True\<rparr>)))
                   \<lparr>dragStartRef := None\<rparr>
              else s2))"

definition handlePointerUp :: "string \<Rightarrow> PointerEvent \<Rightarrow> card \<Rightarrow> card" where
  "handlePointerUp cid event s =
     (case dragStartRef s of
        None \<Rightarrow> s
      | Some start \<Rightarrow>
          (let distance = hypot (fst (dragOffsetRef s)) (snd (dragOffsetRef s));
               s1 = call (ReleasePointerCapture (pointerId event)) s;
               s2 = finalizeDrag cid (distance > DRAG_CLOSE_DISTANCE) s1
           in s2\<lparr>dragStartRef := None, isDraggingOutRef := False\<rparr>))"

definition handlePointerCancel :: "string \<Rightarrow> PointerEvent \<Rightarrow> card \<Rightarrow> card" where
  "handlePointerCancel cid event s =
     (case dragStartRef s of
        None \<Rightarrow> s
      | Some start \<Rightarrow>
          (let s1 = call (ReleasePointerCapture (pointerId event)) s;
               s2 = finalizeDrag cid False s1
           in s2\<lparr>dragStartRef := None, isDraggingOutRef := False\<rparr>))"

text \<open>
  The card's \<^verbatim>\<open>onClick\<close>. The flag says whether the \<^verbatim>\<open>onClick\<close> prop was provided; without
  it the element has no click handler at all.
\<close>

definition handleClick :: "bool \<Rightarrow> card \<Rightarrow> card" where
  "handleClick hasOnClick s =
     (if hasOnClick
      then (if clickSuppressedRef s
            then s\<lparr>clickSuppressedRef := False\<rparr>
            else call OnClick (call StopPropagation s))
      else s)"

text \<open>The events a card receives, and a card fed a sequence of them.\<close>

datatype event =
    PointerDown PointerEvent
  | PointerMove PointerEvent
  | PointerUp PointerEvent
  | PointerCancel PointerEvent
  | Click

fun step :: "string \<Rightarrow> bool \<Rightarrow> event \<Rightarrow> card \<Rightarrow> card" where
  "step cid hasOnClick (PointerDown e) s = handlePointerDown e s"
| "step cid hasOnClick (PointerMove e) s = handlePointerMove cid e s"
| "step cid hasOnClick (PointerUp e) s = handlePointerUp cid e s"
| "step cid hasOnClick (PointerCancel e) s = handlePointerCancel cid e s"
| "step cid hasOnClick Click s = handleClick hasOnClick s"

fun run :: "string \<Rightarrow> bool \<Rightarrow> event list \<Rightarrow> card \<Rightarrow> card" where
  "run cid hasOnClick [] s = s"
| "run cid hasOnClick (e # es) s = run cid hasOnClick es (step cid hasOnClick e s)"

section \<open>Notions used to state the properties\<close>

text \<open>The entries of the anchor bucket \<open>k\<close>, in list order.\<close>

definition bucket_of :: "string \<Rightarrow> NotificationProps list \<Rightarrow> NotificationProps list" where
  "bucket_of k notifications = filter (\<lambda>n. align_key n = k) notifications"

text \<open>The notifications that a render output shows, over all buckets.\<close>

definition rendered_props :: "Element list option list \<Rightarrow> NotificationProps list" where
  "rendered_props out =
     concat (map (\<lambda>e. case e of None \<Rightarrow> [] | Some els \<Rightarrow> map el_props els) out)"

text \<open>
  The value of the per-bucket counter when entry \<open>j\<close> of a bucket is reached: the number of
  non-exiting entries before it.
\<close>

definition count_active :: "NotificationProps list \<Rightarrow> nat" where
  "count_active b = length (filter (\<lambda>n. \<not> isExiting n) b)"

text \<open>
  The stacking index of entry \<open>j\<close> of a rendered bucket, given the side map as it was
  before the render: an exiting entry takes the recorded index when there is one.
\<close>

definition stacking_index :: "(string \<rightharpoonup> nat) \<Rightarrow> NotificationProps list \<Rightarrow> nat \<Rightarrow> nat" where
  "stacking_index previousIndexes b j =
     (if isExiting (b ! j)
      then (case previousIndexes (nid (b ! j)) of
              None \<Rightarrow> count_active (take j b)
            | Some i \<Rightarrow> i)
      else count_active (take j b))"

text \<open>How often the card has called \<^verbatim>\<open>exitNotification\<close> with its id.\<close>

definition exits :: "string \<Rightarrow> card \<Rightarrow> nat" where
  "exits cid s = count_list (effects s) (ExitNotification cid)"

text \<open>
  A pointer-up or pointer-cancel. \<open>no_release\<close> holds of a sequence of events, fed to a card
  in state \<open>s\<close>, when none of them is a pointer-up or pointer-cancel that arrives while a
  drag start is recorded.
\<close>

fun is_release :: "event \<Rightarrow> bool" where
  "is_release (PointerUp e) = True"
| "is_release (PointerCancel e) = True"
| "is_release _ = False"

fun no_release :: "string \<Rightarrow> bool \<Rightarrow> event list \<Rightarrow> card \<Rightarrow> bool" where
  "no_release cid hasOnClick [] s = True"
| "no_release cid hasOnClick (e # es) s =
     (\<not> (is_release e \<and> dragStartRef s \<noteq> None)
      \<and> no_release cid hasOnClick es (step cid hasOnClick e s))"

text \<open>Sample inputs.\<close>

definition sample_note :: "string \<Rightarrow> bool \<Rightarrow> NotificationProps" where
  "sample_note i ex =
     \<lparr> nid = i, ntype = Info, theme = None, colored = None, align = None, isExiting = ex \<rparr>"

definition eight_notes :: "NotificationProps list" where
  "eight_notes = map (\<lambda>i. sample_note i False)
     [''n1'', ''n2'', ''n3'', ''n4'', ''n5'', ''n6'', ''n7'', ''n8'']"

definition four_notes :: "NotificationProps list" where
  "four_notes =
     [(sample_note ''a'' False)\<lparr>align := Some (Some Bottom, Some Right)\<rparr>,
      sample_note ''b'' False,
      (sample_note ''c'' False)\<lparr>align := Some (Some Top, Some Left)\<rparr>,
      (sample_note ''d'' False)\<lparr>align := Some (Some Top, Some Middle)\<rparr>]"

definition later_notes :: "NotificationProps list" where
  "later_notes =
     map (\<lambda>i. sample_note i False) [''n2'', ''n3'', ''n4'', ''n5'', ''n6'', ''n7'']
       @ [sample_note ''n8'' True]"

definition three_notes :: "NotificationProps list" where
  "three_notes = [sample_note ''a'' False, sample_note ''b'' True, sample_note ''c'' False]"

definition three_indexes :: "string \<rightharpoonup> nat" where
  "three_indexes = [''a'' \<mapsto> 0, ''b'' \<mapsto> 1, ''c'' \<mapsto> 2]"

definition pointer_at :: "real \<Rightarrow> real \<Rightarrow> PointerEvent" where
  "pointer_at x y = \<lparr> clientX = x, clientY = y, pointerId = 1 \<rparr>"

definition dragged_out :: card where
  "dragged_out =
     run ''n1'' True [PointerDown (pointer_at 0 0), PointerMove (pointer_at 101 0)] initial_card"

definition dragged_to_threshold :: card where
  "dragged_to_threshold =
     run ''n1'' True [PointerDown (pointer_at 0 0), PointerMove (pointer_at 100 0)] initial_card"

section \<open>Bucketing and the cap of 7\<close>

lemma groups_loop_lookup:
  "groups_loop acc ns k =
     (case acc k of
        None \<Rightarrow> (if bucket_of k ns = [] then None else Some (bucket_of k ns))
      | Some b \<Rightarrow> Some (b @ bucket_of k ns))"
  by (induction ns arbitrary: acc) (auto simp: bucket_of_def split: option.splits)

lemma groups_lookup:
  "groups ns k = (if bucket_of k ns = [] then None else Some (bucket_of k ns))"
  by (simp add: groups_def groups_loop_lookup)

lemma key_of_parts:
  "vertical_str v @ CHR ''-'' # horizontal_str h \<in> set ORDER"
  by (cases v; cases h; simp add: ORDER_def)

lemma align_key_cases:
  "align_key n \<in> set ORDER"
  by (simp add: align_key_def Let_def key_of_parts split: prod.splits)

lemma render_bucket_props:
  "map el_props (fst (render_bucket a p b)) = b"
  by (induction b arbitrary: a p) (simp_all add: mk_element_def Let_def split_beta)


lemma render_order_props:
  "map (map_option (map el_props)) (fst (render_order ks grp p)) =
     map (\<lambda>k. map_option (take 7) (grp k)) ks"
proof (induction ks arbitrary: p)
  case Nil
  show ?case by simp
next
  case (Cons k ks)
  show ?case
  proof (cases "grp k")
    case None
    with Cons show ?thesis by (simp add: split_beta)
  next
    case (Some b)
    with Cons show ?thesis by (simp add: split_beta render_bucket_props)
  qed
qed

lemma manager_props:
  "map (map_option (map el_props)) (fst (NotificationManager ns p)) =
     map (\<lambda>k. map_option (take 7) (groups ns k)) ORDER"
  by (simp add: NotificationManager_def render_order_props)

lemma distinct_ids:
  "distinct (map nid ns) \<Longrightarrow> distinct ns"
  by (rule distinct_map [THEN iffD1, THEN conjunct1])

lemma take_nth_notin:
  assumes "distinct b" "7 \<le> j" "j < length b"
  shows "b ! j \<notin> set (take 7 b)"
proof
  assume "b ! j \<in> set (take 7 b)"
  then obtain i where i: "i < length (take 7 b)" "take 7 b ! i = b ! j"
    by (auto simp: in_set_conv_nth)
  then have "i < 7" "i < length b" "b ! i = b ! j" by simp_all
  with assms have "i = j" by (simp add: nth_eq_iff_index_eq)
  with \<open>i < 7\<close> \<open>7 \<le> j\<close> show False by simp
qed

lemma rendered_props_via_props:
  "rendered_props out =
     concat (map (\<lambda>e. case e of None \<Rightarrow> [] | Some b \<Rightarrow> b) (map (map_option (map el_props)) out))"
  by (induction out) (simp_all add: rendered_props_def split: option.splits)

lemma rendered_props_manager:
  "set (rendered_props (fst (NotificationManager ns p))) =
     (\<Union>k \<in> set ORDER. set (take 7 (bucket_of k ns)))"
proof -
  have "rendered_props (fst (NotificationManager ns p)) =
      concat (map (\<lambda>e. case e of None \<Rightarrow> [] | Some b \<Rightarrow> b)
                (map (\<lambda>k. map_option (take 7) (groups ns k)) ORDER))"
    by (simp only: rendered_props_via_props manager_props)
  moreover have "(case map_option (take 7) (groups ns k) of None \<Rightarrow> [] | Some b \<Rightarrow> b)
      = take 7 (bucket_of k ns)" for k
    by (simp add: groups_lookup)
  ultimately have "rendered_props (fst (NotificationManager ns p)) =
      concat (map (\<lambda>k. take 7 (bucket_of k ns)) ORDER)"
    by (simp add: comp_def)
  then show ?thesis by simp
qed

text \<open>
  C1. For every snapshot of the live list and every state of the side map, the manager
  renders, for each of the anchor keys in turn, exactly the first 7 entries (fewer if the
  bucket is shorter) of that key's bucket, in list order, and nothing for an empty
  bucket. With unique ids, an entry that is 8th or later in its bucket is in the list,
  as are the 7 before it, and is not among the rendered notifications.
\<close>

theorem C1_theorem:
  "map (map_option (map el_props)) (fst (NotificationManager ns p)) =
     map (\<lambda>k. if bucket_of k ns = [] then None else Some (take 7 (bucket_of k ns))) ORDER
   \<and> (distinct (map nid ns) \<and> 7 \<le> j \<and> j < length (bucket_of k ns)
        \<longrightarrow> bucket_of k ns ! j \<in> set ns
          \<and> set (take 7 (bucket_of k ns)) \<subseteq> set ns
          \<and> bucket_of k ns ! j \<notin> set (rendered_props (fst (NotificationManager ns p))))"
proof (intro conjI impI)
  show "map (map_option (map el_props)) (fst (NotificationManager ns p)) =
     map (\<lambda>k. if bucket_of k ns = [] then None else Some (take 7 (bucket_of k ns))) ORDER"
    by (simp add: manager_props groups_lookup)
next
  assume a: "distinct (map nid ns) \<and> 7 \<le> j \<and> j < length (bucket_of k ns)"
  let ?n = "bucket_of k ns ! j"
  have mem: "?n \<in> set (bucket_of k ns)" using a by simp
  then show "?n \<in> set ns" by (simp add: bucket_of_def)
  show "set (take 7 (bucket_of k ns)) \<subseteq> set ns"
    using set_take_subset [of 7 "bucket_of k ns"] by (auto simp: bucket_of_def)
  have key: "align_key ?n = k" using mem by (simp add: bucket_of_def)
  have d: "distinct (bucket_of k ns)"
    using a distinct_ids [of ns] by (simp add: bucket_of_def)
  show "?n \<notin> set (rendered_props (fst (NotificationManager ns p)))"
  proof
    assume "?n \<in> set (rendered_props (fst (NotificationManager ns p)))"
    then obtain k' where "?n \<in> set (take 7 (bucket_of k' ns))"
      by (auto simp: rendered_props_manager)
    moreover from this have "align_key ?n = k'"
      using set_take_subset [of 7 "bucket_of k' ns"] by (auto simp: bucket_of_def)
    ultimately have "?n \<in> set (take 7 (bucket_of k ns))" using key by simp
    with take_nth_notin [OF d] a show False by simp
  qed
qed

lemma align_key_sample [simp]: "align_key (sample_note i ex) = ''top-middle''"
  by (simp add: align_key_def sample_note_def)

lemma nid_sample [simp]: "nid (sample_note i ex) = i"
  by (simp add: sample_note_def)

lemma bucket_eight: "bucket_of ''top-middle'' eight_notes = eight_notes"
  by (simp add: bucket_of_def eight_notes_def)

theorem C1_witness:
  "map (map_option (map (nid \<circ> el_props))) (fst (NotificationManager eight_notes Map.empty)) =
     [None, Some [''n1'', ''n2'', ''n3'', ''n4'', ''n5'', ''n6'', ''n7''], None, None, None, None]
   \<and> nid (bucket_of ''top-middle'' eight_notes ! 7) = ''n8''
   \<and> bucket_of ''top-middle'' eight_notes ! 7 \<in> set eight_notes
   \<and> bucket_of ''top-middle'' eight_notes ! 7
        \<notin> set (rendered_props (fst (NotificationManager eight_notes Map.empty)))"
proof -
  have h: "distinct (map nid eight_notes) \<and> (7::nat) \<le> 7
             \<and> 7 < length (bucket_of ''top-middle'' eight_notes)"
    by (simp add: bucket_eight) (simp add: eight_notes_def)
  have b: "map (\<lambda>k. if bucket_of k eight_notes = [] then None
                      else Some (take 7 (bucket_of k eight_notes))) ORDER
           = [None, Some (take 7 eight_notes), None, None, None, None]"
    by (simp add: ORDER_def bucket_of_def eight_notes_def)
  have "map (map_option (map nid)) (map (map_option (map el_props))
            (fst (NotificationManager eight_notes Map.empty)))
        = map (map_option (map nid)) [None, Some (take 7 eight_notes), None, None, None, None]"
    using C1_theorem [of eight_notes Map.empty 7 "''top-middle''"] b by simp
  then have "map (map_option (map (nid \<circ> el_props))) (fst (NotificationManager eight_notes Map.empty))
        = [None, Some [''n1'', ''n2'', ''n3'', ''n4'', ''n5'', ''n6'', ''n7''], None, None, None, None]"
    by (simp add: option.map_comp comp_def eight_notes_def)
  moreover have "nid (bucket_of ''top-middle'' eight_notes ! 7) = ''n8''"
    by (simp add: bucket_eight) (simp add: eight_notes_def)
  ultimately show ?thesis
    using C1_theorem [of eight_notes Map.empty 7 "''top-middle''"] h by simp
qed

text \<open>
  C3. The anchor keys are the 6 of \<open>ORDER\<close>, all different. Every notification has one
  of them as its key, so no group has another key; one without an anchor has the key top-middle, one with an anchor
  the key of its two components. \<open>groups\<close> maps a key to the entries with that key, in
  list order (a key without entries is absent), so every entry of the list is in the
  bucket of its key and in no other. The output of the manager has one position for each
  key, in the order top-left, top-middle, top-right, bottom-left, bottom-middle,
  bottom-right, holding the first 7 entries of that key's group.
\<close>

theorem C3_theorem:
  "ORDER = [''top-left'', ''top-middle'', ''top-right'',
            ''bottom-left'', ''bottom-middle'', ''bottom-right'']
   \<and> length ORDER = 6 \<and> distinct ORDER
   \<and> align_key n \<in> set ORDER
   \<and> (align n = None \<longrightarrow> align_key n = ''top-middle'')
   \<and> (align n = Some (Some v, Some h) \<longrightarrow> align_key n = vertical_str v @ ''-'' @ horizontal_str h)
   \<and> groups ns k = (if bucket_of k ns = [] then None else Some (bucket_of k ns))
   \<and> (groups ns k \<noteq> None \<longrightarrow> k \<in> set ORDER)
   \<and> (n \<in> set ns \<longrightarrow> n \<in> set (bucket_of (align_key n) ns)
         \<and> (\<forall>k'. n \<in> set (bucket_of k' ns) \<longrightarrow> k' = align_key n))
   \<and> map (map_option (map el_props)) (fst (NotificationManager ns p)) =
       map (\<lambda>k'. map_option (take 7) (groups ns k')) ORDER"
proof (intro conjI)
  show "ORDER = [''top-left'', ''top-middle'', ''top-right'',
            ''bottom-left'', ''bottom-middle'', ''bottom-right'']"
    by (rule ORDER_def)
  show "length ORDER = 6" "distinct ORDER" by (simp_all add: ORDER_def)
  show "groups ns k \<noteq> None \<longrightarrow> k \<in> set ORDER"
  proof
    assume "groups ns k \<noteq> None"
    then have "bucket_of k ns \<noteq> []" by (simp add: groups_lookup split: if_splits)
    then obtain m where "m \<in> set (bucket_of k ns)" by (cases "bucket_of k ns") auto
    then have "align_key m = k" by (simp add: bucket_of_def)
    with align_key_cases [of m] show "k \<in> set ORDER" by simp
  qed
  show "align_key n \<in> set ORDER" by (rule align_key_cases)
  show "align n = None \<longrightarrow> align_key n = ''top-middle''"
    by (simp add: align_key_def)
  show "align n = Some (Some v, Some h) \<longrightarrow> align_key n = vertical_str v @ ''-'' @ horizontal_str h"
    by (simp add: align_key_def)
  show "groups ns k = (if bucket_of k ns = [] then None else Some (bucket_of k ns))"
    by (rule groups_lookup)
  show "n \<in> set ns \<longrightarrow> n \<in> set (bucket_of (align_key n) ns)
         \<and> (\<forall>k'. n \<in> set (bucket_of k' ns) \<longrightarrow> k' = align_key n)"
    by (simp add: bucket_of_def)
  show "map (map_option (map el_props)) (fst (NotificationManager ns p)) =
       map (\<lambda>k'. map_option (take 7) (groups ns k')) ORDER"
    by (rule manager_props)
qed

theorem C3_witness:
  "align_key (sample_note ''b'' False) = ''top-middle''
   \<and> align_key ((sample_note ''a'' False)\<lparr>align := Some (Some Bottom, Some Right)\<rparr>) = ''bottom-right''
   \<and> (sample_note ''a'' False)\<lparr>align := Some (Some Bottom, Some Right)\<rparr>
        \<in> set (bucket_of ''bottom-right'' four_notes)
   \<and> map (map_option (map (nid \<circ> el_props))) (fst (NotificationManager four_notes Map.empty)) =
       [Some [''c''], Some [''b'', ''d''], None, None, None, Some [''a'']]"
proof -
  let ?a = "(sample_note ''a'' False)\<lparr>align := Some (Some Bottom, Some Right)\<rparr>"
  have 1: "align_key (sample_note ''b'' False) = ''top-middle''"
    using C3_theorem [of "sample_note ''b'' False" Top Middle four_notes "''top-middle''" Map.empty]
    by (simp add: sample_note_def)
  have 2: "align_key ?a = ''bottom-right''"
    using C3_theorem [of ?a Bottom Right four_notes "''top-middle''" Map.empty]
    by (simp add: sample_note_def)
  have g: "map (\<lambda>k'. map_option (take 7) (groups four_notes k')) ORDER =
      [Some [four_notes ! 2], Some [four_notes ! 1, four_notes ! 3], None, None, None, Some [four_notes ! 0]]"
    by (simp add: groups_def four_notes_def ORDER_def align_key_def sample_note_def)
  have "map (map_option (map nid)) (map (map_option (map el_props))
            (fst (NotificationManager four_notes Map.empty)))
        = map (map_option (map nid))
            [Some [four_notes ! 2], Some [four_notes ! 1, four_notes ! 3], None, None, None, Some [four_notes ! 0]]"
    using C3_theorem [of ?a Bottom Right four_notes "''top-middle''" Map.empty] g by simp
  then have 3: "map (map_option (map (nid \<circ> el_props))) (fst (NotificationManager four_notes Map.empty)) =
       [Some [''c''], Some [''b'', ''d''], None, None, None, Some [''a'']]"
    by (simp add: option.map_comp comp_def four_notes_def)
  have m: "?a \<in> set four_notes" by (simp add: four_notes_def)
  from C3_theorem [of ?a Bottom Right four_notes "''top-middle''" Map.empty] m 2
  have 4: "?a \<in> set (bucket_of ''bottom-right'' four_notes)" by simp
  from 1 2 3 4 show ?thesis by simp
qed

section \<open>Stacking indices and the side map\<close>

lemma render_bucket_length:
  "length (fst (render_bucket a p b)) = length b"
  using render_bucket_props [of a p b] by (metis length_map)

lemma render_bucket_index:
  "distinct (map nid b) \<Longrightarrow> j < length b \<Longrightarrow>
     el_index (fst (render_bucket a p b) ! j) =
       (if isExiting (b ! j)
        then (case p (nid (b ! j)) of None \<Rightarrow> a + count_active (take j b) | Some i \<Rightarrow> i)
        else a + count_active (take j b))"
proof (induction b arbitrary: a p j)
  case Nil
  then show ?case by simp
next
  case (Cons n b)
  show ?case
  proof (cases j)
    case 0
    then show ?thesis
      by (simp add: split_beta Let_def mk_element_def count_active_def split: option.splits)
  next
    case (Suc i)
    with Cons.prems have i: "i < length b" and d: "distinct (map nid b)"
      and notin: "nid n \<notin> nid ` set b" by auto
    from i have "b ! i \<in> set b" by simp
    with notin have ne: "nid (b ! i) \<noteq> nid n" by (metis imageI)
    show ?thesis
      using Cons.IH [OF d i] ne Suc
      by (simp add: split_beta Let_def count_active_def split: option.splits)
  qed
qed

lemma render_bucket_Cons:
  "render_bucket a p (n # b) =
     (mk_element n (if isExiting n then (case p (nid n) of None \<Rightarrow> a | Some i \<Rightarrow> i) else a)
        # fst (render_bucket (if \<not> isExiting n then a + 1 else a)
                 (p(nid n \<mapsto> (if isExiting n then (case p (nid n) of None \<Rightarrow> a | Some i \<Rightarrow> i) else a)))
                 b),
      snd (render_bucket (if \<not> isExiting n then a + 1 else a)
             (p(nid n \<mapsto> (if isExiting n then (case p (nid n) of None \<Rightarrow> a | Some i \<Rightarrow> i) else a)))
             b))"
  by (simp add: split_beta Let_def)

lemma render_bucket_untouched:
  "k \<notin> nid ` set b \<Longrightarrow> snd (render_bucket a p b) k = p k"
  by (induction b arbitrary: a p) (simp_all add: split_beta Let_def)

lemma render_bucket_recorded:
  "distinct (map nid b) \<Longrightarrow> j < length b \<Longrightarrow>
     snd (render_bucket a p b) (nid (b ! j)) = Some (el_index (fst (render_bucket a p b) ! j))"
proof (induction b arbitrary: a p j)
  case Nil
  then show ?case by simp
next
  case (Cons n b)
  show ?case
  proof (cases j)
    case 0
    from Cons.prems have "nid n \<notin> nid ` set b" by auto
    with 0 show ?thesis
      by (simp add: split_beta Let_def mk_element_def render_bucket_untouched)
  next
    case (Suc i)
    with Cons.prems have i: "i < length b" and d: "distinct (map nid b)" by auto
    show ?thesis
      unfolding render_bucket_Cons Suc fst_conv snd_conv nth_Cons_Suc
      by (rule Cons.IH [OF d i])
  qed
qed

lemma stacking_index_cong:
  "j < length b \<Longrightarrow> (\<And>n. n \<in> set b \<Longrightarrow> p (nid n) = q (nid n)) \<Longrightarrow>
     stacking_index p b j = stacking_index q b j"
  by (simp add: stacking_index_def)

lemma render_bucket_indices:
  assumes "distinct (map nid b)"
  shows "map el_index (fst (render_bucket 0 p b)) = map (stacking_index p b) [0..<length b]"
  by (rule nth_equalityI)
     (simp_all add: render_bucket_length render_bucket_index [OF assms] stacking_index_def
        split: option.splits)

lemma bucket_ids_disjoint:
  assumes "distinct (map nid ns)" "k \<noteq> k'" "n \<in> set (bucket_of k' ns)"
  shows "nid n \<notin> nid ` set (bucket_of k ns)"
proof
  assume "nid n \<in> nid ` set (bucket_of k ns)"
  then obtain m where m: "m \<in> set ns" "align_key m = k" "nid n = nid m"
    by (auto simp: bucket_of_def)
  from assms(3) have n: "n \<in> set ns" "align_key n = k'" by (auto simp: bucket_of_def)
  from assms(1) have "inj_on nid (set ns)" by (simp add: distinct_map)
  with m n have "n = m" by (auto dest: inj_onD)
  with m n assms(2) show False by simp
qed


lemma render_order_length:
  "length (fst (render_order ks grp p)) = length ks"
  by (induction ks arbitrary: p) (simp_all add: split_beta split: option.splits)

lemma render_order_untouched:
  "(\<And>k b. k \<in> set ks \<Longrightarrow> grp k = Some b \<Longrightarrow> i \<notin> nid ` set (take 7 b)) \<Longrightarrow>
     snd (render_order ks grp p) i = p i"
proof (induction ks arbitrary: p)
  case Nil
  show ?case by simp
next
  case (Cons k ks)
  have rest: "snd (render_order ks grp q) i = q i" for q
    using Cons.prems by (intro Cons.IH) auto
  show ?case
  proof (cases "grp k")
    case None
    then show ?thesis by (simp add: split_beta rest)
  next
    case (Some b)
    with Cons.prems [of k b] have "i \<notin> nid ` set (take 7 b)" by simp
    with Some show ?thesis
      by (simp add: split_beta rest render_bucket_untouched)
  qed
qed

lemma render_order_indices:
  assumes ids: "distinct (map nid ns)"
  shows "distinct ks \<Longrightarrow>
     map (map_option (map el_index)) (fst (render_order ks (groups ns) p)) =
       map (\<lambda>k. map_option (\<lambda>b. map (stacking_index p (take 7 b)) [0..<length (take 7 b)])
                  (groups ns k)) ks"
proof (induction ks arbitrary: p)
  case Nil
  show ?case by simp
next
  case (Cons k ks)
  then have dks: "distinct ks" and knotin: "k \<notin> set ks" by simp_all
  show ?case
  proof (cases "groups ns k")
    case None
    then show ?thesis using Cons.IH [OF dks] by (simp add: split_beta)
  next
    case (Some b)
    then have b: "b = bucket_of k ns" by (simp add: groups_lookup split: if_splits)
    let ?b7 = "take 7 b"
    let ?p' = "snd (render_bucket 0 p ?b7)"
    have db: "distinct (map nid ?b7)"
      using ids distinct_map_filter [of nid ns] distinct_take [of "map nid b" 7]
      by (simp add: b bucket_of_def take_map)
    have agree: "?p' (nid n) = p (nid n)" if "k' \<in> set ks" "n \<in> set (bucket_of k' ns)" for k' n
    proof -
      from that knotin have "k \<noteq> k'" by auto
      from bucket_ids_disjoint [OF ids this that(2)]
      have "nid n \<notin> nid ` set ?b7"
        using set_take_subset [of 7 b] by (auto simp: b)
      then show ?thesis by (rule render_bucket_untouched)
    qed
    have rest: "map_option (\<lambda>c. map (stacking_index ?p' (take 7 c)) [0..<length (take 7 c)]) (groups ns k')
              = map_option (\<lambda>c. map (stacking_index p (take 7 c)) [0..<length (take 7 c)]) (groups ns k')"
      if "k' \<in> set ks" for k'
    proof (cases "groups ns k'")
      case None
      then show ?thesis by simp
    next
      case (Some c)
      then have c: "c = bucket_of k' ns" by (simp add: groups_lookup split: if_splits)
      have "stacking_index ?p' (take 7 c) j = stacking_index p (take 7 c) j"
        if "j < length (take 7 c)" for j
      proof (rule stacking_index_cong [OF that])
        fix n assume "n \<in> set (take 7 c)"
        then have "n \<in> set (bucket_of k' ns)"
          using set_take_subset [of 7 c] by (auto simp: c)
        with \<open>k' \<in> set ks\<close> show "?p' (nid n) = p (nid n)" by (rule agree)
      qed
      with Some show ?thesis by simp
    qed
    show ?thesis
      using Cons.IH [OF dks, of ?p'] Some rest render_bucket_indices [OF db, of p]
      by (simp add: split_beta cong: map_cong)
  qed
qed


lemma render_order_recorded:
  assumes ids: "distinct (map nid ns)"
  shows "distinct ks \<Longrightarrow> k \<in> set ks \<Longrightarrow> j < length (take 7 (bucket_of k ns)) \<Longrightarrow>
     snd (render_order ks (groups ns) p) (nid (bucket_of k ns ! j)) =
       Some (stacking_index p (take 7 (bucket_of k ns)) j)"
proof (induction ks arbitrary: p)
  case Nil
  then show ?case by simp
next
  case (Cons k0 ks)
  then have dks: "distinct ks" and k0notin: "k0 \<notin> set ks" by simp_all
  let ?b = "bucket_of k ns"
  let ?n = "?b ! j"
  from Cons.prems(3) have j7: "j < 7" and jb: "j < length ?b" by simp_all
  then have nb: "?n \<in> set ?b" by simp
  have nth7: "take 7 ?b ! j = ?n" using j7 by simp
  have db: "distinct (map nid (take 7 (bucket_of k' ns)))" for k'
    using ids distinct_map_filter [of nid ns] distinct_take [of "map nid (bucket_of k' ns)" 7]
    by (simp add: bucket_of_def take_map)
  show ?case
  proof (cases "k = k0")
    case True
    from jb have "groups ns k0 = Some ?b" by (auto simp: groups_lookup True)
    moreover have "snd (render_order ks (groups ns) q) (nid ?n) = q (nid ?n)" for q
    proof (rule render_order_untouched)
      fix k' c assume k': "k' \<in> set ks" and c: "groups ns k' = Some c"
      then have "c = bucket_of k' ns" by (simp add: groups_lookup split: if_splits)
      moreover from k' k0notin True have "k' \<noteq> k" by auto
      ultimately show "nid ?n \<notin> nid ` set (take 7 c)"
        using bucket_ids_disjoint [OF ids _ nb, of k'] set_take_subset [of 7 c] by auto
    qed
    moreover have "snd (render_bucket 0 p (take 7 ?b)) (nid ?n)
        = Some (stacking_index p (take 7 ?b) j)"
      using render_bucket_recorded [OF db [of k] Cons.prems(3), of 0 p]
            render_bucket_index [OF db [of k] Cons.prems(3), of 0 p]
      by (simp add: nth7 stacking_index_def split: option.splits)
    ultimately show ?thesis by (simp add: split_beta True)
  next
    case False
    with Cons.prems have kin: "k \<in> set ks" by simp
    show ?thesis
    proof (cases "groups ns k0")
      case None
      then show ?thesis using Cons.IH [OF dks kin Cons.prems(3)] by (simp add: split_beta)
    next
      case (Some b0)
      then have b0: "b0 = bucket_of k0 ns" by (simp add: groups_lookup split: if_splits)
      let ?p' = "snd (render_bucket 0 p (take 7 b0))"
      have "stacking_index ?p' (take 7 ?b) j = stacking_index p (take 7 ?b) j"
      proof (rule stacking_index_cong [OF Cons.prems(3)])
        fix n assume "n \<in> set (take 7 ?b)"
        then have "n \<in> set ?b" using set_take_subset [of 7 ?b] by auto
        from bucket_ids_disjoint [OF ids _ this, of k0] False
        have "nid n \<notin> nid ` set (take 7 b0)"
          using set_take_subset [of 7 b0] by (auto simp: b0)
        then show "?p' (nid n) = p (nid n)" by (rule render_bucket_untouched)
      qed
      with Cons.IH [OF dks kin Cons.prems(3), of ?p'] Some show ?thesis
        by (simp add: split_beta)
    qed
  qed
qed

lemma distinct_ORDER: "distinct ORDER"
  by (simp add: ORDER_def)

lemma isExiting_sample [simp]: "isExiting (sample_note i ex) = ex"
  by (simp add: sample_note_def)

lemma groups_eight:
  "groups eight_notes k = (if k = ''top-middle'' then Some eight_notes else None)"
  by (simp add: groups_lookup bucket_of_def eight_notes_def)

lemma groups_later:
  "groups later_notes k = (if k = ''top-middle'' then Some later_notes else None)"
  by (simp add: groups_lookup bucket_of_def later_notes_def)

lemma groups_three:
  "groups three_notes k = (if k = ''top-middle'' then Some three_notes else None)"
  by (simp add: groups_lookup bucket_of_def three_notes_def)

lemma first_cycle_n8:
  "snd (render_cycle eight_notes Map.empty) ''n8'' = None"
  by (simp add: render_cycle_def NotificationManager_def ORDER_def groups_eight split_beta
        cleanup_effect_def)
     (simp add: eight_notes_def render_bucket_untouched)

text \<open>
  C2. With unique ids, the indices of each rendered bucket are those of
  \<open>stacking_index\<close>: a non-exiting entry receives the number of non-exiting entries before
  it in the bucket (the per-bucket counter); an exiting entry receives the index recorded
  for its id in the side map when one is recorded, and the counter value when none is.
  After the render the side map holds, for every rendered entry, the index it received.
  The effect deletes the side map's entry for every id that is not in the live list and
  keeps the others.
\<close>

theorem C2_theorem:
  "(distinct (map nid ns) \<longrightarrow>
      map (map_option (map el_index)) (fst (NotificationManager ns p)) =
        map (\<lambda>k. map_option (\<lambda>b. map (stacking_index p (take 7 b)) [0..<length (take 7 b)])
                   (groups ns k)) ORDER)
   \<and> (distinct (map nid ns) \<and> k \<in> set ORDER \<and> j < length (take 7 (bucket_of k ns)) \<longrightarrow>
        snd (NotificationManager ns p) (nid (bucket_of k ns ! j)) =
          Some (stacking_index p (take 7 (bucket_of k ns)) j))
   \<and> cleanup_effect ns q i = (if i \<in> nid ` set ns then q i else None)"
proof (intro conjI impI)
  assume "distinct (map nid ns)"
  then show "map (map_option (map el_index)) (fst (NotificationManager ns p)) =
        map (\<lambda>k. map_option (\<lambda>b. map (stacking_index p (take 7 b)) [0..<length (take 7 b)])
                   (groups ns k)) ORDER"
    unfolding NotificationManager_def by (rule render_order_indices [OF _ distinct_ORDER])
next
  assume "distinct (map nid ns) \<and> k \<in> set ORDER \<and> j < length (take 7 (bucket_of k ns))"
  then show "snd (NotificationManager ns p) (nid (bucket_of k ns ! j)) =
          Some (stacking_index p (take 7 (bucket_of k ns)) j)"
    unfolding NotificationManager_def by (intro render_order_recorded distinct_ORDER) simp_all
next
  show "cleanup_effect ns q i = (if i \<in> nid ` set ns then q i else None)"
    by (simp add: cleanup_effect_def)
qed

theorem C2_witness:
  "map (map_option (map el_index)) (fst (NotificationManager three_notes three_indexes))
     = [None, Some [0, 1, 1], None, None, None, None]
   \<and> snd (NotificationManager three_notes three_indexes) ''c'' = Some 1
   \<and> snd (render_cycle [sample_note ''a'' False, sample_note ''c'' False]
             (snd (NotificationManager three_notes three_indexes))) ''b'' = None"
proof -
  let ?two = "[sample_note ''a'' False, sample_note ''c'' False]"
  let ?p2 = "snd (NotificationManager three_notes three_indexes)"
  have d: "distinct (map nid three_notes)" by (simp add: three_notes_def)
  have b: "bucket_of ''top-middle'' three_notes = three_notes"
    by (simp add: bucket_of_def three_notes_def)
  have h: "distinct (map nid three_notes) \<and> ''top-middle'' \<in> set ORDER
            \<and> 2 < length (take 7 (bucket_of ''top-middle'' three_notes))"
    by (simp add: b) (simp add: three_notes_def ORDER_def)
  have i: "map (stacking_index three_indexes (take 7 three_notes)) [0..<min (length three_notes) 7]
           = [0, 1, 1]"
    by (simp add: three_notes_def stacking_index_def three_indexes_def count_active_def
          upt_rec [of 0] upt_rec [of 1] upt_rec [of 2])
  note inst = C2_theorem [of three_notes three_indexes "''top-middle''" 2]
  from inst d have 1: "map (map_option (map el_index)) (fst (NotificationManager three_notes three_indexes))
     = [None, Some [0, 1, 1], None, None, None, None]"
    by (simp add: ORDER_def groups_three i)
  from inst h have "snd (NotificationManager three_notes three_indexes)
        (nid (bucket_of ''top-middle'' three_notes ! 2))
      = Some (stacking_index three_indexes (take 7 (bucket_of ''top-middle'' three_notes)) 2)"
    by blast
  then have 2: "snd (NotificationManager three_notes three_indexes) ''c'' = Some 1"
    by (simp add: b) (simp add: three_notes_def stacking_index_def count_active_def)
  from C2_theorem [of ?two ?p2 "''top-middle''" 0 "snd (NotificationManager ?two ?p2)" "''b''"]
  have 3: "snd (render_cycle ?two ?p2) ''b'' = None"
    by (simp add: render_cycle_def split_beta)
  from 1 2 3 show ?thesis by simp
qed

text \<open>
  An exiting entry with no recorded index takes the counter value. Eight notifications
  share a bucket, so the eighth is not rendered and gets no entry in the side map. The first is
  then removed and the eighth starts exiting: it is rendered seventh, and receives the
  counter value 6.
\<close>

theorem C2_counterexample:
  "snd (render_cycle eight_notes Map.empty) ''n8'' = None
   \<and> nid (later_notes ! 6) = ''n8''
   \<and> isExiting (later_notes ! 6)
   \<and> map (map_option (map el_index))
        (fst (render_cycle later_notes (snd (render_cycle eight_notes Map.empty))))
       = [None, Some [0, 1, 2, 3, 4, 5, 6], None, None, None, None]"
proof -
  have "map (map_option (map el_index))
        (fst (render_cycle later_notes (snd (render_cycle eight_notes Map.empty))))
       = [None, Some [0, 1, 2, 3, 4, 5, 6], None, None, None, None]"
    apply (simp add: render_cycle_def [of later_notes] NotificationManager_def ORDER_def
        groups_later split_beta)
    apply (simp add: later_notes_def split_beta Let_def mk_element_def first_cycle_n8)
    done
  moreover have "nid (later_notes ! 6) = ''n8''" "isExiting (later_notes ! 6)"
    by (simp_all add: later_notes_def)
  ultimately show ?thesis using first_cycle_n8 by simp
qed

section \<open>Colours\<close>

text \<open>
  C4. For the colored mode "none" the three computed colours are those of the "none"
  entry of the palette that the theme mode selects, whatever the type and the theme
  override: two calls that differ only in type and override return the same colours.
\<close>

theorem C4_theorem:
  "computeColors NoColor type userTheme lightTheme darkTheme mode =
     \<lparr> bg = backgroundColor ((if mode = Light then lightTheme else darkTheme) NoType),
       border = borderColor ((if mode = Light then lightTheme else darkTheme) NoType),
       color = fontColor ((if mode = Light then lightTheme else darkTheme) NoType) \<rparr>
   \<and> computeColors NoColor type userTheme lightTheme darkTheme mode =
       computeColors NoColor type' userTheme' lightTheme darkTheme mode"
  by (simp add: computeColors_def Let_def)

section \<open>Pointer gestures\<close>

lemma hypot_gt_iff:
  assumes "0 \<le> t"
  shows "(t < hypot x y) = (t * t < x * x + y * y)"
proof -
  have "t = sqrt (t * t)" using assms by simp
  then have "(t < hypot x y) = (sqrt (t * t) < sqrt (x * x + y * y))"
    by (simp add: hypot_def)
  also have "\<dots> = (t * t < x * x + y * y)" by (rule real_sqrt_less_iff)
  finally show ?thesis .
qed

lemma hypot_le_iff:
  assumes "0 \<le> t"
  shows "(hypot x y \<le> t) = (x * x + y * y \<le> t * t)"
  using hypot_gt_iff [OF assms, of x y] by auto

lemmas card_defs =
  handlePointerDown_def handlePointerMove_def handlePointerUp_def handlePointerCancel_def
  handleClick_def finalizeDrag_def updateDragOffset_def call_def
  DRAG_CLOSE_DISTANCE_def DRAG_RELEASE_PUSH_def Let_def

lemma no_start_noop:
  "dragStartRef s = None \<Longrightarrow> handlePointerMove cid e s = s"
  "dragStartRef s = None \<Longrightarrow> handlePointerUp cid e s = s"
  "dragStartRef s = None \<Longrightarrow> handlePointerCancel cid e s = s"
  by (simp_all add: handlePointerMove_def handlePointerUp_def handlePointerCancel_def)

lemma finalizeDrag_close:
  "finalizeDrag cid True s =
     (let x = fst (dragOffsetRef s); y = snd (dragOffsetRef s);
          v = (if 6 < x then x + 120 else if x < - 6 then x - 120 else x,
               if 6 < y then y + 120 else if y < - 6 then y - 120 else y)
      in s\<lparr>dragOffsetRef := v, dragOffset := v,
            effects := effects s @ [SetDragOffset v, ExitNotification cid]\<rparr>)"
  by (cases "dragOffsetRef s") (auto simp: card_defs abs_if sgn_if)

lemma finalizeDrag_snap:
  "finalizeDrag cid False s =
     s\<lparr>dragOffsetRef := (0, 0), dragOffset := (0, 0),
        effects := effects s @ [SetDragOffset (0, 0)]\<rparr>"
  by (cases "dragOffsetRef s") (simp add: card_defs)

lemma up_with_start:
  assumes "dragStartRef s = Some st"
  shows "handlePointerUp cid e s =
     (finalizeDrag cid (100 < hypot (fst (dragOffsetRef s)) (snd (dragOffsetRef s)))
        (s\<lparr>effects := effects s @ [ReleasePointerCapture (pointerId e)]\<rparr>))
     \<lparr>dragStartRef := None, isDraggingOutRef := False\<rparr>"
  using assms by (simp add: handlePointerUp_def call_def Let_def DRAG_CLOSE_DISTANCE_def)

lemma cancel_with_start:
  assumes "dragStartRef s = Some st"
  shows "handlePointerCancel cid e s =
     (finalizeDrag cid False
        (s\<lparr>effects := effects s @ [ReleasePointerCapture (pointerId e)]\<rparr>))
     \<lparr>dragStartRef := None, isDraggingOutRef := False\<rparr>"
  using assms by (simp add: handlePointerCancel_def call_def Let_def)

lemma move_with_start:
  assumes "dragStartRef s = Some (sx, sy)"
  shows "handlePointerMove cid e s =
     (let dx = clientX e - sx; dy = clientY e - sy;
          s2 = s\<lparr>dragOffsetRef := (dx, dy), dragOffset := (dx, dy),
                 effects := effects s @ [SetDragOffset (dx, dy)],
                 clickSuppressedRef := (4 < hypot dx dy \<or> clickSuppressedRef s)\<rparr>
      in if 100 < hypot dx dy \<and> \<not> isDraggingOutRef s
         then (finalizeDrag cid True (s2\<lparr>isDraggingOutRef := True\<rparr>))
                \<lparr>effects := effects (finalizeDrag cid True (s2\<lparr>isDraggingOutRef := True\<rparr>))
                                @ [ReleasePointerCapture (pointerId e)],
                  dragStartRef := None\<rparr>
         else s2)"
  using assms
  by (simp add: handlePointerMove_def updateDragOffset_def call_def Let_def finalizeDrag_close
        DRAG_CLOSE_DISTANCE_def)

lemma hypot_numeral [simp]:
  "(4 < hypot x y) = (16 < x * x + y * y)"
  "(100 < hypot x y) = (10000 < x * x + y * y)"
  "(hypot x y \<le> 100) = (x * x + y * y \<le> 10000)"
  using hypot_gt_iff [of 4 x y] hypot_gt_iff [of 100 x y] hypot_le_iff [of 100 x y]
  by simp_all

lemma dragged_out_state:
  "dragged_out =
     \<lparr> dragOffset = (221, 0), dragOffsetRef = (221, 0), dragStartRef = None,
       clickSuppressedRef = True, isDraggingOutRef = True,
       effects = [SetPointerCapture 1, SetDragOffset (101, 0), SetDragOffset (221, 0),
                  ExitNotification ''n1'', ReleasePointerCapture 1] \<rparr>"
  by (simp add: dragged_out_def initial_card_def pointer_at_def handlePointerDown_def call_def
        move_with_start Let_def finalizeDrag_close)

lemma dragged_to_threshold_state:
  "dragged_to_threshold =
     \<lparr> dragOffset = (100, 0), dragOffsetRef = (100, 0), dragStartRef = Some (0, 0),
       clickSuppressedRef = True, isDraggingOutRef = False,
       effects = [SetPointerCapture 1, SetDragOffset (100, 0)] \<rparr>"
  by (simp add: dragged_to_threshold_def initial_card_def pointer_at_def handlePointerDown_def
        call_def move_with_start Let_def)

text \<open>
  C5. On a pointer-up that arrives while a drag start is recorded: if the
  displacement of the recorded offset is strictly greater than 100, the card releases the
  pointer, pushes the offset and calls exit once; if it is at most 100, the offset snaps
  back to (0, 0) and exit is not called.
\<close>

theorem C5_theorem:
  assumes "dragStartRef s = Some st"
  shows "(100 < hypot (fst (dragOffsetRef s)) (snd (dragOffsetRef s))
            \<longrightarrow> exits cid (handlePointerUp cid e s) = exits cid s + 1
              \<and> effects (handlePointerUp cid e s) =
                  effects s @ [ReleasePointerCapture (pointerId e),
                               SetDragOffset (dragOffset (handlePointerUp cid e s)),
                               ExitNotification cid])
       \<and> (hypot (fst (dragOffsetRef s)) (snd (dragOffsetRef s)) \<le> 100
            \<longrightarrow> dragOffset (handlePointerUp cid e s) = (0, 0)
              \<and> dragOffsetRef (handlePointerUp cid e s) = (0, 0)
              \<and> exits cid (handlePointerUp cid e s) = exits cid s
              \<and> effects (handlePointerUp cid e s) =
                  effects s @ [ReleasePointerCapture (pointerId e), SetDragOffset (0, 0)])"
  by (simp add: up_with_start [OF assms] finalizeDrag_close finalizeDrag_snap Let_def exits_def
        DRAG_CLOSE_DISTANCE_def)

theorem C5_witness:
  "exits ''n1'' (handlePointerUp ''n1'' (pointer_at 100 0) dragged_to_threshold) = 0
   \<and> dragOffset (handlePointerUp ''n1'' (pointer_at 100 0) dragged_to_threshold) = (0, 0)
   \<and> exits ''n1''
        (handlePointerUp ''n1'' (pointer_at 150 0)
           (run ''n1'' True [PointerDown (pointer_at 0 0), PointerMove (pointer_at 150 0)]
              dragged_out)) = 2"
proof -
  let ?s = "run ''n1'' True [PointerDown (pointer_at 0 0), PointerMove (pointer_at 150 0)] dragged_out"
  have s: "?s = \<lparr> dragOffset = (150, 0), dragOffsetRef = (150, 0), dragStartRef = Some (0, 0),
       clickSuppressedRef = True, isDraggingOutRef = True,
       effects = [SetPointerCapture 1, SetDragOffset (101, 0), SetDragOffset (221, 0),
                  ExitNotification ''n1'', ReleasePointerCapture 1, SetPointerCapture 1,
                  SetDragOffset (150, 0)] \<rparr>"
    by (simp add: dragged_out_state pointer_at_def handlePointerDown_def call_def
        move_with_start Let_def)
  have a: "dragStartRef dragged_to_threshold = Some (0, 0)"
    by (simp add: dragged_to_threshold_state)
  have b: "dragStartRef ?s = Some (0, 0)" by (simp only: s card.simps)
  from C5_theorem [OF a, of "''n1''" "pointer_at 100 0"]
  have 1: "exits ''n1'' (handlePointerUp ''n1'' (pointer_at 100 0) dragged_to_threshold) = 0"
    and 2: "dragOffset (handlePointerUp ''n1'' (pointer_at 100 0) dragged_to_threshold) = (0, 0)"
    by (simp_all add: dragged_to_threshold_state exits_def)
  from C5_theorem [OF b, of "''n1''" "pointer_at 150 0"]
  have 3: "exits ''n1'' (handlePointerUp ''n1'' (pointer_at 150 0) ?s) = 2"
    by (simp only: s) (simp add: exits_def)
  from 1 2 3 show ?thesis by simp
qed

text \<open>
  At a displacement of exactly 100 the card does not exit: pointer-down at (0, 0), a move
  to (100, 0), which is not beyond the threshold, and pointer-up there.
\<close>

theorem C5_counterexample:
  "dragStartRef dragged_to_threshold = Some (0, 0)
   \<and> \<not> isDraggingOutRef dragged_to_threshold
   \<and> dragOffsetRef dragged_to_threshold = (100, 0)
   \<and> hypot 100 0 \<ge> 100
   \<and> exits ''n1'' (handlePointerUp ''n1'' (pointer_at 100 0) dragged_to_threshold)
       = exits ''n1'' dragged_to_threshold
   \<and> effects (handlePointerUp ''n1'' (pointer_at 100 0) dragged_to_threshold)
       = [SetPointerCapture 1, SetDragOffset (100, 0), ReleasePointerCapture 1,
          SetDragOffset (0, 0)]"
  by (simp add: dragged_to_threshold_state up_with_start finalizeDrag_snap exits_def
        pointer_at_def hypot_def)

text \<open>
  C6. Finalizing with exit replaces each component of the offset on its own: a component
  above 6 grows by 120, one below -6 shrinks by 120, and one of absolute value at most 6
  stays. The new offset is set first, and then exit is called.
\<close>

theorem C6_theorem:
  "dragOffsetRef (finalizeDrag cid True s) =
       (if 6 < fst (dragOffsetRef s) then fst (dragOffsetRef s) + 120
        else if fst (dragOffsetRef s) < - 6 then fst (dragOffsetRef s) - 120
        else fst (dragOffsetRef s),
        if 6 < snd (dragOffsetRef s) then snd (dragOffsetRef s) + 120
        else if snd (dragOffsetRef s) < - 6 then snd (dragOffsetRef s) - 120
        else snd (dragOffsetRef s))
   \<and> dragOffset (finalizeDrag cid True s) = dragOffsetRef (finalizeDrag cid True s)
   \<and> effects (finalizeDrag cid True s) =
       effects s @ [SetDragOffset (dragOffsetRef (finalizeDrag cid True s)), ExitNotification cid]"
  by (simp add: finalizeDrag_close Let_def DRAG_RELEASE_PUSH_def)

text \<open>
  C7. A pointer-move that arrives while a drag start is recorded and lies more than 4 from
  it sets the suppression flag. A click runs the handler exactly when the handler is
  provided and the flag is unset; with a handler the flag is unset after the click, so
  the click after a suppressed one runs the handler. A pointer-down clears the flag.
\<close>

theorem C7_theorem:
  "(dragStartRef s = Some (sx, sy) \<and> 4 < hypot (clientX e - sx) (clientY e - sy)
      \<longrightarrow> clickSuppressedRef (handlePointerMove cid e s))
   \<and> effects (handleClick hasOnClick s) =
       effects s @ (if hasOnClick \<and> \<not> clickSuppressedRef s then [StopPropagation, OnClick] else [])
   \<and> (hasOnClick \<longrightarrow> \<not> clickSuppressedRef (handleClick hasOnClick s))
   \<and> (hasOnClick \<and> clickSuppressedRef s
        \<longrightarrow> effects (handleClick hasOnClick (handleClick hasOnClick s)) =
              effects s @ [StopPropagation, OnClick])
   \<and> \<not> clickSuppressedRef (handlePointerDown e' s)"
proof (intro conjI impI)
  assume "dragStartRef s = Some (sx, sy) \<and> 4 < hypot (clientX e - sx) (clientY e - sy)"
  then show "clickSuppressedRef (handlePointerMove cid e s)"
    by (simp add: move_with_start Let_def finalizeDrag_close)
qed (simp_all add: handleClick_def handlePointerDown_def call_def)

theorem C7_witness:
  "clickSuppressedRef
     (run ''n1'' True [PointerDown (pointer_at 0 0), PointerMove (pointer_at 5 0)] initial_card)
   \<and> effects (run ''n1'' True
        [PointerDown (pointer_at 0 0), PointerMove (pointer_at 5 0), Click] initial_card)
      = [SetPointerCapture 1, SetDragOffset (5, 0)]
   \<and> effects (run ''n1'' True
        [PointerDown (pointer_at 0 0), PointerMove (pointer_at 5 0), Click, Click] initial_card)
      = [SetPointerCapture 1, SetDragOffset (5, 0), StopPropagation, OnClick]"
proof -
  let ?s0 = "handlePointerDown (pointer_at 0 0) initial_card"
  let ?s1 = "handlePointerMove ''n1'' (pointer_at 5 0) ?s0"
  have s0: "?s0 = \<lparr> dragOffset = (0, 0), dragOffsetRef = (0, 0), dragStartRef = Some (0, 0),
       clickSuppressedRef = False, isDraggingOutRef = False, effects = [SetPointerCapture 1] \<rparr>"
    by (simp add: handlePointerDown_def call_def initial_card_def pointer_at_def)
  have h: "dragStartRef ?s0 = Some (0, 0)
            \<and> 4 < hypot (clientX (pointer_at 5 0) - 0) (clientY (pointer_at 5 0) - 0)"
    by (simp add: s0) (simp add: pointer_at_def)
  from C7_theorem [of ?s0 0 0 "pointer_at 5 0" "''n1''" True "pointer_at 0 0"] h
  have 1: "clickSuppressedRef ?s1" by blast
  have e1: "effects ?s1 = [SetPointerCapture 1, SetDragOffset (5, 0)]"
    unfolding s0 by (simp add: move_with_start Let_def pointer_at_def)
  from C7_theorem [of ?s1 0 0 "pointer_at 5 0" "''n1''" True "pointer_at 0 0"] 1 e1
  have 2: "effects (handleClick True ?s1) = [SetPointerCapture 1, SetDragOffset (5, 0)]"
    and 3: "effects (handleClick True (handleClick True ?s1))
            = [SetPointerCapture 1, SetDragOffset (5, 0), StopPropagation, OnClick]"
    by simp_all
  from 1 2 3 show ?thesis by simp
qed

text \<open>
  C8. A pointer-cancel that arrives while a drag start is recorded resets the
  offset to (0, 0) and does not call exit, whatever the offset was. A pointer-cancel
  with no drag start recorded leaves the card as it is, offset included.
\<close>

theorem C8_theorem:
  "(dragStartRef s = Some st
      \<longrightarrow> dragOffset (handlePointerCancel cid e s) = (0, 0)
        \<and> dragOffsetRef (handlePointerCancel cid e s) = (0, 0)
        \<and> exits cid (handlePointerCancel cid e s) = exits cid s
        \<and> effects (handlePointerCancel cid e s) =
            effects s @ [ReleasePointerCapture (pointerId e), SetDragOffset (0, 0)])
   \<and> (dragStartRef s = None \<longrightarrow> handlePointerCancel cid e s = s)"
  by (simp add: cancel_with_start finalizeDrag_snap exits_def no_start_noop)

theorem C8_witness:
  "dragOffset (handlePointerCancel ''n1'' (pointer_at 100 0) dragged_to_threshold) = (0, 0)
   \<and> exits ''n1'' (handlePointerCancel ''n1'' (pointer_at 100 0) dragged_to_threshold) = 0
   \<and> handlePointerCancel ''n1'' (pointer_at 101 0) dragged_out = dragged_out"
proof -
  have a: "dragStartRef dragged_to_threshold = Some (0, 0)"
    by (simp add: dragged_to_threshold_state)
  have b: "dragStartRef dragged_out = None" by (simp add: dragged_out_state)
  have c: "exits ''n1'' dragged_to_threshold = 0"
    by (simp add: dragged_to_threshold_state exits_def)
  from C8_theorem [of dragged_to_threshold "(0, 0)" "''n1''" "pointer_at 100 0"] a c
  have 1: "dragOffset (handlePointerCancel ''n1'' (pointer_at 100 0) dragged_to_threshold) = (0, 0)"
    and 2: "exits ''n1'' (handlePointerCancel ''n1'' (pointer_at 100 0) dragged_to_threshold) = 0"
    by simp_all
  from C8_theorem [of dragged_out "(0, 0)" "''n1''" "pointer_at 101 0"] b
  have 3: "handlePointerCancel ''n1'' (pointer_at 101 0) dragged_out = dragged_out" by simp
  from 1 2 3 show ?thesis by simp
qed

text \<open>
  After a move has auto-closed the card, no drag start is recorded, and a pointer-cancel
  leaves the pushed offset (221, 0) in place.
\<close>

theorem C8_counterexample:
  "dragged_out =
     run ''n1'' True [PointerDown (pointer_at 0 0), PointerMove (pointer_at 101 0)] initial_card
   \<and> dragOffset dragged_out = (221, 0)
   \<and> dragOffset (handlePointerCancel ''n1'' (pointer_at 101 0) dragged_out) = (221, 0)
   \<and> dragOffset (handlePointerCancel ''n1'' (pointer_at 101 0) dragged_out) \<noteq> (0, 0)"
proof -
  have "dragged_out =
     run ''n1'' True [PointerDown (pointer_at 0 0), PointerMove (pointer_at 101 0)] initial_card"
    by (simp only: dragged_out_def)
  moreover have "dragOffset dragged_out = (221, 0)"
    by (simp add: dragged_out_state)
  moreover have "dragOffset (handlePointerCancel ''n1'' (pointer_at 101 0) dragged_out) = (221, 0)"
    by (simp add: dragged_out_state no_start_noop)
  ultimately show ?thesis by simp
qed

text \<open>
  C9. A pointer-move, pointer-up or pointer-cancel that arrives while no drag start is
  recorded leaves the whole state of the card unchanged.
\<close>

theorem C9_theorem:
  assumes "dragStartRef s = None"
  shows "handlePointerMove cid e s = s
       \<and> handlePointerUp cid e s = s
       \<and> handlePointerCancel cid e' s = s"
  using assms by (simp add: no_start_noop)

theorem C9_witness:
  "handlePointerMove ''n1'' (pointer_at 50 50) initial_card = initial_card
   \<and> handlePointerUp ''n1'' (pointer_at 50 50) initial_card = initial_card
   \<and> handlePointerCancel ''n1'' (pointer_at 50 50) initial_card = initial_card
   \<and> handlePointerMove ''n1'' (pointer_at 300 0) dragged_out = dragged_out"
proof -
  have a: "dragStartRef initial_card = None" by (simp add: initial_card_def)
  have b: "dragStartRef dragged_out = None" by (simp add: dragged_out_state)
  from C9_theorem [OF a, of "''n1''" "pointer_at 50 50" "pointer_at 50 50"]
       C9_theorem [OF b, of "''n1''" "pointer_at 300 0" "pointer_at 300 0"]
  show ?thesis by simp
qed

lemma step_latched:
  assumes "isDraggingOutRef s" "\<not> (is_release ev \<and> dragStartRef s \<noteq> None)"
  shows "isDraggingOutRef (step cid h ev s) \<and> exits cid (step cid h ev s) = exits cid s"
proof (cases ev)
  case (PointerDown e)
  with assms show ?thesis by (simp add: handlePointerDown_def call_def exits_def)
next
  case (PointerMove e)
  show ?thesis
  proof (cases "dragStartRef s")
    case None
    with PointerMove assms show ?thesis by (simp add: no_start_noop)
  next
    case (Some st)
    then have "dragStartRef s = Some (fst st, snd st)" by simp
    from move_with_start [OF this] PointerMove assms show ?thesis
      by (simp add: Let_def exits_def)
  qed
next
  case (PointerUp e)
  with assms have "dragStartRef s = None" by (cases "dragStartRef s") auto
  with PointerUp assms(1) show ?thesis by (simp add: no_start_noop)
next
  case (PointerCancel e)
  with assms have "dragStartRef s = None" by (cases "dragStartRef s") auto
  with PointerCancel assms(1) show ?thesis by (simp add: no_start_noop)
next
  case Click
  with assms show ?thesis by (simp add: handleClick_def call_def exits_def)
qed

lemma run_latched:
  "isDraggingOutRef s \<Longrightarrow> no_release cid h evs s \<Longrightarrow>
     isDraggingOutRef (run cid h evs s) \<and> exits cid (run cid h evs s) = exits cid s"
proof (induction evs arbitrary: s)
  case Nil
  then show ?case by simp
next
  case (Cons ev evs)
  from Cons.prems have a: "\<not> (is_release ev \<and> dragStartRef s \<noteq> None)"
    and b: "no_release cid h evs (step cid h ev s)" by simp_all
  from step_latched [OF Cons.prems(1) a, of cid h]
  have c: "isDraggingOutRef (step cid h ev s)" and d: "exits cid (step cid h ev s) = exits cid s"
    by simp_all
  from Cons.IH [OF c b] d show ?case by simp
qed

text \<open>
  C10. A move beyond 100 with the latch unset sets the latch and calls exit once. A
  pointer-down keeps a set latch. From a state with the latch set, any sequence of events
  in which no pointer-up or pointer-cancel arrives while a drag start is recorded leaves
  the latch set and adds no call of exit. A pointer-up or pointer-cancel that arrives
  while a drag start is recorded clears the latch.
\<close>

theorem C10_theorem:
  "(dragStartRef s = Some (sx, sy) \<and> \<not> isDraggingOutRef s
      \<and> 100 < hypot (clientX e - sx) (clientY e - sy)
      \<longrightarrow> isDraggingOutRef (handlePointerMove cid e s)
        \<and> exits cid (handlePointerMove cid e s) = exits cid s + 1)
   \<and> (isDraggingOutRef s \<longrightarrow> isDraggingOutRef (handlePointerDown e s))
   \<and> (isDraggingOutRef s \<and> no_release cid h evs s
      \<longrightarrow> isDraggingOutRef (run cid h evs s) \<and> exits cid (run cid h evs s) = exits cid s)
   \<and> (dragStartRef s \<noteq> None
      \<longrightarrow> \<not> isDraggingOutRef (handlePointerUp cid e s)
        \<and> \<not> isDraggingOutRef (handlePointerCancel cid e s))"
proof (intro conjI impI)
  assume "dragStartRef s = Some (sx, sy) \<and> \<not> isDraggingOutRef s
      \<and> 100 < hypot (clientX e - sx) (clientY e - sy)"
  then show "isDraggingOutRef (handlePointerMove cid e s)"
    and "exits cid (handlePointerMove cid e s) = exits cid s + 1"
    by (simp_all add: move_with_start Let_def finalizeDrag_close exits_def DRAG_CLOSE_DISTANCE_def)
next
  assume "isDraggingOutRef s"
  then show "isDraggingOutRef (handlePointerDown e s)"
    by (simp add: handlePointerDown_def call_def)
next
  assume "isDraggingOutRef s \<and> no_release cid h evs s"
  then show "isDraggingOutRef (run cid h evs s)"
    and "exits cid (run cid h evs s) = exits cid s"
    using run_latched [of s cid h evs] by simp_all
next
  assume "dragStartRef s \<noteq> None"
  then obtain st where "dragStartRef s = Some st" by auto
  then show "\<not> isDraggingOutRef (handlePointerUp cid e s)"
    and "\<not> isDraggingOutRef (handlePointerCancel cid e s)"
    by (simp_all add: up_with_start cancel_with_start)
qed

theorem C10_witness:
  "isDraggingOutRef dragged_out
   \<and> exits ''n1'' dragged_out = 1
   \<and> isDraggingOutRef
       (run ''n1'' True
          [PointerDown (pointer_at 0 0), PointerMove (pointer_at 150 0), Click,
           PointerMove (pointer_at 300 0)] dragged_out)
   \<and> exits ''n1''
       (run ''n1'' True
          [PointerDown (pointer_at 0 0), PointerMove (pointer_at 150 0), Click,
           PointerMove (pointer_at 300 0)] dragged_out) = 1
   \<and> \<not> isDraggingOutRef
       (handlePointerUp ''n1'' (pointer_at 5 0) (handlePointerDown (pointer_at 0 0) dragged_out))"
proof -
  let ?evs = "[PointerDown (pointer_at 0 0), PointerMove (pointer_at 150 0), Click,
           PointerMove (pointer_at 300 0)]"
  let ?s0 = "handlePointerDown (pointer_at 0 0) initial_card"
  let ?d = "handlePointerDown (pointer_at 0 0) dragged_out"
  have s0: "?s0 = \<lparr> dragOffset = (0, 0), dragOffsetRef = (0, 0), dragStartRef = Some (0, 0),
       clickSuppressedRef = False, isDraggingOutRef = False, effects = [SetPointerCapture 1] \<rparr>"
    by (simp add: handlePointerDown_def call_def initial_card_def pointer_at_def)
  have mv: "dragged_out = handlePointerMove ''n1'' (pointer_at 101 0) ?s0"
    by (simp add: dragged_out_def)
  have h0: "dragStartRef ?s0 = Some (0, 0) \<and> \<not> isDraggingOutRef ?s0
      \<and> 100 < hypot (clientX (pointer_at 101 0) - 0) (clientY (pointer_at 101 0) - 0)"
    by (simp add: s0) (simp add: pointer_at_def)
  have x0: "exits ''n1'' ?s0 = 0" by (simp add: s0 exits_def)
  from C10_theorem [of ?s0 0 0 "pointer_at 101 0" "''n1''" True "[]"] h0 x0
  have 1: "isDraggingOutRef dragged_out" and 2: "exits ''n1'' dragged_out = 1"
    unfolding mv by simp_all
  have nr: "no_release ''n1'' True ?evs dragged_out" by simp
  from C10_theorem [of dragged_out 0 0 "pointer_at 0 0" "''n1''" True ?evs] 1 2 nr
  have 3: "isDraggingOutRef (run ''n1'' True ?evs dragged_out)"
    and 4: "exits ''n1'' (run ''n1'' True ?evs dragged_out) = 1"
    by simp_all
  have "dragStartRef ?d \<noteq> None" by (simp add: handlePointerDown_def call_def)
  with C10_theorem [of ?d 0 0 "pointer_at 5 0" "''n1''" True "[]"]
  have 5: "\<not> isDraggingOutRef (handlePointerUp ''n1'' (pointer_at 5 0) ?d)" by blast
  from 1 2 3 4 5 show ?thesis by simp
qed

end
